theory Spec2Isabelle
  imports Main "HOL-Library.Word" "HOL-Library.Monad_Syntax"
begin

unbundle bit_operations_syntax

section \<open>Machine types\<close>

text \<open>
  The embedding fixes the LP64 data model of the 64-bit Unix targets of \<^verbatim>\<open>pbl.c\<close>:
  \<^verbatim>\<open>unsigned char\<close> has 8 bits, \<^verbatim>\<open>int\<close> and \<^verbatim>\<open>unsigned int\<close> have 32 bits,
  \<^verbatim>\<open>long\<close>, \<^verbatim>\<open>unsigned long\<close> and \<^verbatim>\<open>size_t\<close> have 64 bits. A signed type is a word
  read with \<open>sint\<close>; a conversion to a narrower type keeps the low bits (\<open>ucast\<close>), a
  conversion from a signed type to a wider one extends the sign (\<open>scast\<close>), and signed
  arithmetic wraps around as the two's complement machine instruction does.
\<close>

type_synonym uchar = "8 word"
type_synonym cint = "32 word"
type_synonym uint = "32 word"
type_synonym ulong = "64 word"
type_synonym size_t = "64 word"

section \<open>Buffers\<close>

text \<open>
  A pointer to \<^verbatim>\<open>unsigned char\<close> is the list of the bytes of the object from the pointer
  on; \<^verbatim>\<open>p + 1\<close> is \<open>drop 1 p\<close>. An access beyond the end of the object is undefined
  behaviour in C: here it is the value \<open>None\<close>, and it propagates.
\<close>

definition load :: "uchar list \<Rightarrow> nat \<Rightarrow> uchar option" where
  "load buffer i = (if i < length buffer then Some (buffer ! i) else None)"

definition store :: "uchar list \<Rightarrow> nat \<Rightarrow> uchar \<Rightarrow> uchar list option" where
  "store buffer i b = (if i < length buffer then Some (buffer[i := b]) else None)"

section \<open>The variable length integer codec\<close>

text \<open>\<^verbatim>\<open>int pbl_LongToVarBuf(unsigned char* buffer, unsigned long value)\<close>: the result is
  the buffer after the call and the returned number of bytes.\<close>

definition pbl_LongToVarBuf :: "uchar list \<Rightarrow> ulong \<Rightarrow> (uchar list \<times> cint) option" where
  "pbl_LongToVarBuf buffer v =
    (if v \<le> 0x7f then do {
       b0 \<leftarrow> store buffer 0 (ucast v);
       Some (b0, 1)
     }
     else if v \<le> 0x3fff then do {
       b0 \<leftarrow> store buffer 0 (ucast (drop_bit 8 v OR 0x80));
       b1 \<leftarrow> store b0 1 (ucast v);
       Some (b1, 2)
     }
     else if v \<le> 0x1fffff then do {
       b0 \<leftarrow> store buffer 0 (ucast ((drop_bit 16 v OR 0x80) OR 0x40));
       b1 \<leftarrow> store b0 1 (ucast (drop_bit 8 v));
       b2 \<leftarrow> store b1 2 (ucast v);
       Some (b2, 3)
     }
     else if v \<le> 0x0fffffff then do {
       b0 \<leftarrow> store buffer 0 (ucast (((drop_bit 24 v OR 0x80) OR 0x40) OR 0x20));
       b1 \<leftarrow> store b0 1 (ucast (drop_bit 16 v));
       b2 \<leftarrow> store b1 2 (ucast (drop_bit 8 v));
       b3 \<leftarrow> store b2 3 (ucast v);
       Some (b3, 4)
     }
     else do {
       b0 \<leftarrow> store buffer 0 0xf0;
       b1 \<leftarrow> store b0 1 (ucast (drop_bit 24 v));
       b2 \<leftarrow> store b1 2 (ucast (drop_bit 16 v));
       b3 \<leftarrow> store b2 3 (ucast (drop_bit 8 v));
       b4 \<leftarrow> store b3 4 (ucast v);
       Some (b4, 5)
     })"

text \<open>\<^verbatim>\<open>long pbl_BufToLong(unsigned char* buf)\<close>: four bytes, big endian, each widened
  to \<^verbatim>\<open>unsigned long\<close> before it is shifted; the result is converted to \<^verbatim>\<open>long\<close>, which
  has the same width.\<close>

definition pbl_BufToLong :: "uchar list \<Rightarrow> ulong option" where
  "pbl_BufToLong buf = do {
     b0 \<leftarrow> load buf 0;
     b1 \<leftarrow> load buf 1;
     b2 \<leftarrow> load buf 2;
     b3 \<leftarrow> load buf 3;
     Some (((push_bit 24 (ucast b0) OR push_bit 16 (ucast b1)) OR push_bit 8 (ucast b2)) OR ucast b3)
   }"

text \<open>\<^verbatim>\<open>int pbl_VarBufToLong(unsigned char* buffer, unsigned long* value)\<close>: the result is
  the value stored through \<^verbatim>\<open>value\<close> and the returned number of bytes. The locals \<^verbatim>\<open>c\<close>
  and \<^verbatim>\<open>val\<close> are of type \<^verbatim>\<open>int\<close>, a byte read from the buffer is promoted to \<^verbatim>\<open>int\<close>
  before \<^verbatim>\<open>& 0xff\<close>, and the \<^verbatim>\<open>int\<close> result is converted to \<^verbatim>\<open>unsigned long\<close> by the
  assignment to \<^verbatim>\<open>*value\<close>.\<close>

definition pbl_VarBufToLong :: "uchar list \<Rightarrow> (ulong \<times> cint) option" where
  "pbl_VarBufToLong buffer = do {
     b0 \<leftarrow> load buffer 0;
     let c = (0xff AND ucast b0 :: cint) in
     if c AND 0x80 = 0 then Some (scast c, 1)
     else if c AND 0x40 = 0 then do {
       b1 \<leftarrow> load buffer 1;
       Some (scast ((c AND 0x3f) * 0x100 + (ucast b1 AND 0xff) :: cint), 2)
     }
     else if c AND 0x20 = 0 then do {
       b1 \<leftarrow> load buffer 1;
       b2 \<leftarrow> load buffer 2;
       let val = (c AND 0x1f) * 0x10000;
           val = val + (ucast b1 AND 0xff) * 0x100
       in Some (scast (val + (ucast b2 AND 0xff) :: cint), 3)
     }
     else if c AND 0x10 = 0 then do {
       b1 \<leftarrow> load buffer 1;
       b2 \<leftarrow> load buffer 2;
       b3 \<leftarrow> load buffer 3;
       let val = (c AND 0x0f) * 0x1000000;
           val = val + (ucast b1 AND 0xff) * 0x10000;
           val = val + (ucast b2 AND 0xff) * 0x100
       in Some (scast (val + (ucast b3 AND 0xff) :: cint), 4)
     }
     else do {
       l \<leftarrow> pbl_BufToLong (drop 1 buffer);
       Some (l, 5)
     }
   }"

text \<open>\<^verbatim>\<open>int pbl_LongSize(unsigned long value)\<close>.\<close>

definition pbl_LongSize :: "ulong \<Rightarrow> cint" where
  "pbl_LongSize v =
    (if v \<le> 0x7f then 1
     else if v \<le> 0x3fff then 2
     else if v \<le> 0x1fffff then 3
     else if v \<le> 0x0fffffff then 4
     else 5)"

text \<open>\<^verbatim>\<open>int pbl_VarBufSize(unsigned char* buffer)\<close>.\<close>

definition pbl_VarBufSize :: "uchar list \<Rightarrow> cint option" where
  "pbl_VarBufSize buffer = do {
     b0 \<leftarrow> load buffer 0;
     let c = (0xff AND ucast b0 :: cint) in
     if c AND 0x80 = 0 then Some 1
     else if c AND 0x40 = 0 then Some 2
     else if c AND 0x20 = 0 then Some 3
     else if c AND 0x10 = 0 then Some 4
     else Some 5
   }"

section \<open>Buffer ordering\<close>

text \<open>\<^verbatim>\<open>memcmp\<close> is the function of the C library (ISO C 7.24.4.1): it compares the first
  \<^verbatim>\<open>n\<close> bytes of two objects as \<^verbatim>\<open>unsigned char\<close>, and the sign of a nonzero result is the
  sign of the difference of the first pair of bytes that differ. The standard leaves the
  magnitude open; the model returns that difference, as the portable implementations do.
  Both objects must hold \<^verbatim>\<open>n\<close> bytes.\<close>

fun memcmp_bytes :: "uchar list \<Rightarrow> uchar list \<Rightarrow> cint" where
  "memcmp_bytes (x # xs) (y # ys) = (if x = y then memcmp_bytes xs ys else ucast x - ucast y)"
| "memcmp_bytes _ _ = 0"

definition memcmp :: "uchar list \<Rightarrow> uchar list \<Rightarrow> size_t \<Rightarrow> cint option" where
  "memcmp s1 s2 n =
    (if unat n \<le> length s1 \<and> unat n \<le> length s2
     then Some (memcmp_bytes (take (unat n) s1) (take (unat n) s2))
     else None)"

text \<open>\<^verbatim>\<open>int pbl_memcmp(void* left, size_t llen, void* right, size_t rlen)\<close>. The last
  line converts both lengths to \<^verbatim>\<open>int\<close> and subtracts them as \<^verbatim>\<open>int\<close>.\<close>

definition pbl_memcmp :: "uchar list \<Rightarrow> size_t \<Rightarrow> uchar list \<Rightarrow> size_t \<Rightarrow> cint option" where
  "pbl_memcmp left llen right rlen =
    (if llen = 0 then (if rlen = 0 then Some 0 else Some (- 1))
     else if rlen = 0 then Some 1
     else let len = (if llen \<le> rlen then llen else rlen) in do {
       rc \<leftarrow> memcmp left right len;
       if rc \<noteq> 0 then Some rc
       else Some ((ucast llen :: cint) - (ucast rlen :: cint))
     })"

text \<open>The loop of \<^verbatim>\<open>pbl_memcmplen\<close>: \<^verbatim>\<open>for (i = 0; i < llen; i++) if (*l++ != *r++) break;\<close>
  with \<^verbatim>\<open>unsigned int i\<close> and \<^verbatim>\<open>size_t llen\<close>, so that \<^verbatim>\<open>i\<close> is widened for the
  comparison and wraps around at \<open>2 ^ 32\<close>. The arguments \<open>l\<close> and \<open>r\<close> are the two
  pointers, which move on by one byte in every round.\<close>

fun memcmplen_loop :: "uchar list \<Rightarrow> uchar list \<Rightarrow> size_t \<Rightarrow> uint \<Rightarrow> uint option" where
  "memcmplen_loop l r llen i =
    (if (ucast i :: size_t) < llen then
       (case l of
          [] \<Rightarrow> None
        | a # l' \<Rightarrow>
          (case r of
             [] \<Rightarrow> None
           | b # r' \<Rightarrow> if a \<noteq> b then Some i else memcmplen_loop l' r' llen (i + 1)))
     else Some i)"

declare memcmplen_loop.simps [simp del]

text \<open>\<^verbatim>\<open>int pbl_memcmplen(void* left, size_t llen, void* right, size_t rlen)\<close>; the
  \<^verbatim>\<open>unsigned int\<close> counter is returned as \<^verbatim>\<open>int\<close>, which keeps its 32 bits.\<close>

definition pbl_memcmplen :: "uchar list \<Rightarrow> size_t \<Rightarrow> uchar list \<Rightarrow> size_t \<Rightarrow> cint option" where
  "pbl_memcmplen left llen right rlen =
    (let llen = (if llen > rlen then rlen else llen)
     in memcmplen_loop left right llen 0)"

text \<open>The number of leading positions at which two byte sequences agree, as the
  specification words it; \<^const>\<open>pbl_memcmplen\<close> is compared with it.\<close>

fun common_prefix_length :: "uchar list \<Rightarrow> uchar list \<Rightarrow> nat" where
  "common_prefix_length (x # xs) (y # ys) = (if x = y then Suc (common_prefix_length xs ys) else 0)"
| "common_prefix_length _ _ = 0"

section \<open>Bit level facts\<close>

lemma word_le_take_bit:
  fixes v :: "'a::len word"
  assumes "unat v < 2 ^ k"
  shows "take_bit k v = v"
proof -
  have "unat (take_bit k v) = unat v"
    using assms by (simp add: unsigned_take_bit_eq take_bit_nat_eq_self_iff)
  then show ?thesis by (simp add: word_unat_eq_iff)
qed

lemma ulong_small:
  fixes v :: ulong
  shows "v \<le> 0x7f \<Longrightarrow> v = take_bit 7 v"
    "v \<le> 0x3fff \<Longrightarrow> v = take_bit 14 v"
    "v \<le> 0x1fffff \<Longrightarrow> v = take_bit 21 v"
    "v \<le> 0x0fffffff \<Longrightarrow> v = take_bit 28 v"
    "v \<le> 0xffffffff \<Longrightarrow> v = take_bit 32 v"
  by (rule word_le_take_bit[symmetric], simp add: word_le_nat_alt)+

lemma breakpoints:
  fixes v :: ulong
  shows "v \<le> 0x7f \<Longrightarrow> v \<le> 0x3fff" "v \<le> 0x3fff \<Longrightarrow> v \<le> 0x1fffff"
    "v \<le> 0x1fffff \<Longrightarrow> v \<le> 0x0fffffff" "v \<le> 0x0fffffff \<Longrightarrow> v \<le> 0xffffffff"
  by (erule order_trans, simp)+

lemma bit_consts:
  "bit (0x80 :: int) n \<longleftrightarrow> n = 7"
  "bit (0x40 :: int) n \<longleftrightarrow> n = 6"
  "bit (0x20 :: int) n \<longleftrightarrow> n = 5"
proof -
  have e: "(0x80 :: int) = 2 ^ 7" "(0x40 :: int) = 2 ^ 6" "(0x20 :: int) = 2 ^ 5"
    by simp_all
  show "bit (0x80 :: int) n \<longleftrightarrow> n = 7" "bit (0x40 :: int) n \<longleftrightarrow> n = 6"
    "bit (0x20 :: int) n \<longleftrightarrow> n = 5"
    unfolding e by (auto simp only: bit_exp_iff possible_bit_int)
qed

lemma mask_consts32:
  "0xff AND (x :: cint) = take_bit 8 x"
  "x AND 0xff = take_bit 8 x"
  "x AND 0x3f = take_bit 6 x"
  "x AND 0x1f = take_bit 5 x"
  "x AND 0x0f = take_bit 4 x"
  by (simp_all add: take_bit_eq_mask mask_numeral and.commute)

lemma test_consts32:
  "(x :: cint) AND 0x80 = 0 \<longleftrightarrow> \<not> bit x 7"
  "(x :: cint) AND 0x40 = 0 \<longleftrightarrow> \<not> bit x 6"
  "(x :: cint) AND 0x20 = 0 \<longleftrightarrow> \<not> bit x 5"
  "(x :: cint) AND 0x10 = 0 \<longleftrightarrow> \<not> bit x 4"
  using and_exp_eq_0_iff_not_bit[of x 7] and_exp_eq_0_iff_not_bit[of x 6]
    and_exp_eq_0_iff_not_bit[of x 5] and_exp_eq_0_iff_not_bit[of x 4]
  by simp_all

lemma mult_consts32:
  "(x :: cint) * 0x100 = push_bit 8 x"
  "(x :: cint) * 0x10000 = push_bit 16 x"
  "(x :: cint) * 0x1000000 = push_bit 24 x"
  by (simp_all add: push_bit_eq_mult)

lemmas norm32 = mask_consts32 test_consts32 mult_consts32

lemmas wbits = bit_and_iff bit_or_iff bit_take_bit_iff bit_push_bit_iff bit_drop_bit_eq
  bit_word_ucast_iff bit_word_scast_iff

lemma byte_cases:
  fixes n :: nat
  obtains "n < 8" | "8 \<le> n" "n < 16" | "16 \<le> n" "n < 24" | "24 \<le> n" "n < 32" | "32 \<le> n"
  by linarith

subsection \<open>The sums of the decoder are bitwise unions\<close>

lemma val2:
  fixes c :: cint and b1 :: uchar
  shows "(c AND 0x3f) * 0x100 + (ucast b1 AND 0xff)
    = push_bit 8 (take_bit 6 c) OR ucast b1"
proof -
  have "push_bit 8 (take_bit 6 c) + take_bit 8 (ucast b1 :: cint)
      = push_bit 8 (take_bit 6 c) OR take_bit 8 (ucast b1)"
    by (rule disjunctive_add) (auto simp add: wbits)
  also have "\<dots> = push_bit 8 (take_bit 6 c) OR ucast b1"
    by (rule bit_word_eqI) (auto simp add: wbits)
  finally show ?thesis unfolding norm32 .
qed

lemma val3:
  fixes c :: cint and b1 b2 :: uchar
  shows "(c AND 0x1f) * 0x10000 + (ucast b1 AND 0xff) * 0x100 + (ucast b2 AND 0xff)
    = push_bit 16 (take_bit 5 c) OR push_bit 8 (ucast b1) OR ucast b2"
proof -
  have "push_bit 16 (take_bit 5 c) + push_bit 8 (take_bit 8 (ucast b1 :: cint))
      = push_bit 16 (take_bit 5 c) OR push_bit 8 (take_bit 8 (ucast b1))"
    by (rule disjunctive_add) (auto simp add: wbits)
  moreover have "(push_bit 16 (take_bit 5 c) OR push_bit 8 (take_bit 8 (ucast b1 :: cint)))
        + take_bit 8 (ucast b2)
      = (push_bit 16 (take_bit 5 c) OR push_bit 8 (take_bit 8 (ucast b1))) OR take_bit 8 (ucast b2)"
    by (rule disjunctive_add) (auto simp add: wbits)
  moreover have "(push_bit 16 (take_bit 5 c) OR push_bit 8 (take_bit 8 (ucast b1 :: cint)))
        OR take_bit 8 (ucast b2)
      = push_bit 16 (take_bit 5 c) OR push_bit 8 (ucast b1) OR ucast b2"
    by (rule bit_word_eqI) (auto simp add: wbits)
  ultimately show ?thesis unfolding norm32 by simp
qed

lemma val4:
  fixes c :: cint and b1 b2 b3 :: uchar
  shows "(c AND 0x0f) * 0x1000000 + (ucast b1 AND 0xff) * 0x10000
      + (ucast b2 AND 0xff) * 0x100 + (ucast b3 AND 0xff)
    = push_bit 24 (take_bit 4 c) OR push_bit 16 (ucast b1) OR push_bit 8 (ucast b2) OR ucast b3"
proof -
  have "push_bit 24 (take_bit 4 c) + push_bit 16 (take_bit 8 (ucast b1 :: cint))
      = push_bit 24 (take_bit 4 c) OR push_bit 16 (take_bit 8 (ucast b1))"
    by (rule disjunctive_add) (auto simp add: wbits)
  moreover have "(push_bit 24 (take_bit 4 c) OR push_bit 16 (take_bit 8 (ucast b1 :: cint)))
        + push_bit 8 (take_bit 8 (ucast b2))
      = (push_bit 24 (take_bit 4 c) OR push_bit 16 (take_bit 8 (ucast b1)))
        OR push_bit 8 (take_bit 8 (ucast b2))"
    by (rule disjunctive_add) (auto simp add: wbits)
  moreover have "((push_bit 24 (take_bit 4 c) OR push_bit 16 (take_bit 8 (ucast b1 :: cint)))
        OR push_bit 8 (take_bit 8 (ucast b2))) + take_bit 8 (ucast b3)
      = ((push_bit 24 (take_bit 4 c) OR push_bit 16 (take_bit 8 (ucast b1)))
        OR push_bit 8 (take_bit 8 (ucast b2))) OR take_bit 8 (ucast b3)"
    by (rule disjunctive_add) (auto simp add: wbits)
  moreover have "((push_bit 24 (take_bit 4 c) OR push_bit 16 (take_bit 8 (ucast b1 :: cint)))
        OR push_bit 8 (take_bit 8 (ucast b2))) OR take_bit 8 (ucast b3)
      = push_bit 24 (take_bit 4 c) OR push_bit 16 (ucast b1) OR push_bit 8 (ucast b2) OR ucast b3"
    by (rule bit_word_eqI) (auto simp add: wbits)
  ultimately show ?thesis unfolding norm32 by simp
qed

lemma tag_tests:
  fixes b0 :: uchar
  shows "(0xff AND ucast b0 :: cint) AND 0x80 = 0 \<longleftrightarrow> \<not> bit b0 7"
    "(0xff AND ucast b0 :: cint) AND 0x40 = 0 \<longleftrightarrow> \<not> bit b0 6"
    "(0xff AND ucast b0 :: cint) AND 0x20 = 0 \<longleftrightarrow> \<not> bit b0 5"
    "(0xff AND ucast b0 :: cint) AND 0x10 = 0 \<longleftrightarrow> \<not> bit b0 4"
  unfolding norm32 by (simp_all add: wbits)

lemma decoded1:
  fixes b0 :: uchar
  shows "scast (0xff AND ucast b0 :: cint) = (ucast b0 :: ulong)"
  unfolding norm32 by (rule bit_word_eqI) (auto simp add: wbits)

lemma decoded2:
  fixes b0 b1 :: uchar
  shows "scast (((0xff AND ucast b0) AND 0x3f) * 0x100 + (ucast b1 AND 0xff) :: cint)
    = (push_bit 8 (ucast (take_bit 6 b0)) OR ucast b1 :: ulong)"
  unfolding val2 unfolding norm32 by (rule bit_word_eqI) (auto simp add: wbits)

lemma decoded3:
  fixes b0 b1 b2 :: uchar
  shows "scast (((0xff AND ucast b0) AND 0x1f) * 0x10000 + (ucast b1 AND 0xff) * 0x100
      + (ucast b2 AND 0xff) :: cint)
    = (push_bit 16 (ucast (take_bit 5 b0)) OR push_bit 8 (ucast b1) OR ucast b2 :: ulong)"
  unfolding val3 unfolding norm32
  apply (rule bit_word_eqI)
  subgoal for n
    by (cases n rule: byte_cases) (auto simp add: wbits)
  done

lemma decoded4:
  fixes b0 b1 b2 b3 :: uchar
  shows "scast (((0xff AND ucast b0) AND 0x0f) * 0x1000000 + (ucast b1 AND 0xff) * 0x10000
      + (ucast b2 AND 0xff) * 0x100 + (ucast b3 AND 0xff) :: cint)
    = (push_bit 24 (ucast (take_bit 4 b0)) OR push_bit 16 (ucast b1)
       OR push_bit 8 (ucast b2) OR ucast b3 :: ulong)"
  unfolding val4 unfolding norm32
  apply (rule bit_word_eqI)
  subgoal for n
    by (cases n rule: byte_cases) (auto simp add: wbits)
  done

text \<open>The decoder, with its \<^verbatim>\<open>int\<close> arithmetic read bitwise.\<close>

lemma pbl_VarBufToLong_bits:
  "pbl_VarBufToLong buffer = do {
     b0 \<leftarrow> load buffer 0;
     if \<not> bit b0 7 then Some (ucast b0, 1)
     else if \<not> bit b0 6 then do {
       b1 \<leftarrow> load buffer 1;
       Some (push_bit 8 (ucast (take_bit 6 b0)) OR ucast b1, 2)
     }
     else if \<not> bit b0 5 then do {
       b1 \<leftarrow> load buffer 1;
       b2 \<leftarrow> load buffer 2;
       Some (push_bit 16 (ucast (take_bit 5 b0)) OR push_bit 8 (ucast b1) OR ucast b2, 3)
     }
     else if \<not> bit b0 4 then do {
       b1 \<leftarrow> load buffer 1;
       b2 \<leftarrow> load buffer 2;
       b3 \<leftarrow> load buffer 3;
       Some (push_bit 24 (ucast (take_bit 4 b0)) OR push_bit 16 (ucast b1)
             OR push_bit 8 (ucast b2) OR ucast b3, 4)
     }
     else do {
       l \<leftarrow> pbl_BufToLong (drop 1 buffer);
       Some (l, 5)
     }
   }"
  unfolding pbl_VarBufToLong_def Let_def tag_tests decoded1 decoded2 decoded3 decoded4
  by (rule refl)

subsection \<open>The \<^verbatim>\<open>int\<close> arithmetic of the decoder does not overflow\<close>

lemma uint_tag_bound:
  fixes c :: cint
  shows "uint (c AND 0x3f) \<le> 0x3f" "uint (c AND 0x1f) \<le> 0x1f" "uint (c AND 0x0f) \<le> 0x0f"
    "uint (c AND 0xff) \<le> 0xff"
  using word_and_le1[of c "0x3f"] word_and_le1[of c "0x1f"] word_and_le1[of c "0x0f"]
    word_and_le1[of c "0xff"]
  by (simp_all add: word_le_def)

lemma sint_small:
  fixes x :: cint
  assumes "uint x < 2 ^ 31"
  shows "sint x = uint x"
proof -
  have "- (2 ^ 31) \<le> uint x" by (rule order_trans[of _ 0]) simp_all
  then have "signed_take_bit 31 (uint x) = uint x"
    using assms by (rule signed_take_bit_int_eq_self)
  then show ?thesis by (simp add: sint_uint)
qed

text \<open>The \<^verbatim>\<open>int\<close> arithmetic of the decoder stays below \<open>2 ^ 28\<close>: read as mathematical
  integers, the products and sums are the values of the machine words.\<close>

lemma decoder_sums_exact:
  fixes c :: cint and b1 b2 b3 :: uchar
  shows "sint ((c AND 0x3f) * 0x100 + (ucast b1 AND 0xff))
      = sint (c AND 0x3f) * 0x100 + sint (ucast b1 AND 0xff :: cint)"
    and "sint ((c AND 0x1f) * 0x10000 + (ucast b1 AND 0xff) * 0x100 + (ucast b2 AND 0xff))
      = sint (c AND 0x1f) * 0x10000 + sint (ucast b1 AND 0xff :: cint) * 0x100
        + sint (ucast b2 AND 0xff :: cint)"
    and "sint ((c AND 0x0f) * 0x1000000 + (ucast b1 AND 0xff) * 0x10000
        + (ucast b2 AND 0xff) * 0x100 + (ucast b3 AND 0xff))
      = sint (c AND 0x0f) * 0x1000000 + sint (ucast b1 AND 0xff :: cint) * 0x10000
        + sint (ucast b2 AND 0xff :: cint) * 0x100 + sint (ucast b3 AND 0xff :: cint)"
proof -
  note b = uint_tag_bound[of c] uint_tag_bound(4)[of "ucast b1"] uint_tag_bound(4)[of "ucast b2"]
    uint_tag_bound(4)[of "ucast b3"]
  have s: "sint (x AND 0x3f) = uint (x AND 0x3f)" "sint (x AND 0x1f) = uint (x AND 0x1f)"
    "sint (x AND 0x0f) = uint (x AND 0x0f)" "sint (x AND 0xff) = uint (x AND 0xff)" for x :: cint
    using uint_tag_bound[of x] by (simp_all add: sint_small)
  show "sint ((c AND 0x3f) * 0x100 + (ucast b1 AND 0xff))
      = sint (c AND 0x3f) * 0x100 + sint (ucast b1 AND 0xff :: cint)"
    unfolding s using b
    by (subst sint_small) (simp_all add: uint_word_ariths take_bit_int_eq_self)
  show "sint ((c AND 0x1f) * 0x10000 + (ucast b1 AND 0xff) * 0x100 + (ucast b2 AND 0xff))
      = sint (c AND 0x1f) * 0x10000 + sint (ucast b1 AND 0xff :: cint) * 0x100
        + sint (ucast b2 AND 0xff :: cint)"
    unfolding s using b
    by (subst sint_small) (simp_all add: uint_word_ariths take_bit_int_eq_self)
  show "sint ((c AND 0x0f) * 0x1000000 + (ucast b1 AND 0xff) * 0x10000
        + (ucast b2 AND 0xff) * 0x100 + (ucast b3 AND 0xff))
      = sint (c AND 0x0f) * 0x1000000 + sint (ucast b1 AND 0xff :: cint) * 0x10000
        + sint (ucast b2 AND 0xff :: cint) * 0x100 + sint (ucast b3 AND 0xff :: cint)"
    unfolding s using b
    by (subst sint_small) (simp_all add: uint_word_ariths take_bit_int_eq_self)
qed

subsection \<open>What the encoder writes\<close>

lemma encoded1:
  assumes "v \<le> 0x7f"
  shows "pbl_LongToVarBuf (a0 # r) v = Some (ucast v # r, 1)"
  using assms by (simp add: pbl_LongToVarBuf_def store_def)

lemma encoded2:
  assumes "\<not> v \<le> 0x7f" "v \<le> 0x3fff"
  shows "pbl_LongToVarBuf (a0 # a1 # r) v
    = Some (ucast (drop_bit 8 v OR 0x80) # ucast v # r, 2)"
  using assms by (simp add: pbl_LongToVarBuf_def store_def)

lemma encoded3:
  assumes "\<not> v \<le> 0x3fff" "v \<le> 0x1fffff"
  shows "pbl_LongToVarBuf (a0 # a1 # a2 # r) v
    = Some (ucast ((drop_bit 16 v OR 0x80) OR 0x40) # ucast (drop_bit 8 v) # ucast v # r, 3)"
proof -
  have "\<not> v \<le> 0x7f" using assms(1) breakpoints by blast
  then show ?thesis using assms by (simp add: pbl_LongToVarBuf_def store_def)
qed

lemma encoded4:
  assumes "\<not> v \<le> 0x1fffff" "v \<le> 0x0fffffff"
  shows "pbl_LongToVarBuf (a0 # a1 # a2 # a3 # r) v
    = Some (ucast (((drop_bit 24 v OR 0x80) OR 0x40) OR 0x20) # ucast (drop_bit 16 v)
        # ucast (drop_bit 8 v) # ucast v # r, 4)"
proof -
  have "\<not> v \<le> 0x3fff" using assms(1) breakpoints by blast
  moreover from this have "\<not> v \<le> 0x7f" using breakpoints by blast
  ultimately show ?thesis using assms by (simp add: pbl_LongToVarBuf_def store_def)
qed

lemma encoded5:
  assumes "\<not> v \<le> 0x0fffffff"
  shows "pbl_LongToVarBuf (a0 # a1 # a2 # a3 # a4 # r) v
    = Some (0xf0 # ucast (drop_bit 24 v) # ucast (drop_bit 16 v)
        # ucast (drop_bit 8 v) # ucast v # r, 5)"
proof -
  have "\<not> v \<le> 0x1fffff" using assms(1) breakpoints by blast
  moreover from this have "\<not> v \<le> 0x3fff" using breakpoints by blast
  moreover from this have "\<not> v \<le> 0x7f" using breakpoints by blast
  ultimately show ?thesis using assms by (simp add: pbl_LongToVarBuf_def store_def)
qed

lemma five_bytes:
  assumes "5 \<le> length (buffer :: uchar list)"
  obtains a0 a1 a2 a3 a4 r where "buffer = a0 # a1 # a2 # a3 # a4 # r"
proof -
  from assms obtain a0 r0 where "buffer = a0 # r0" "4 \<le> length r0"
    by (cases buffer) auto
  moreover from this obtain a1 r1 where "r0 = a1 # r1" "3 \<le> length r1"
    by (cases r0) auto
  moreover from this obtain a2 r2 where "r1 = a2 # r2" "2 \<le> length r2"
    by (cases r1) auto
  moreover from this obtain a3 r3 where "r2 = a3 # r3" "1 \<le> length r3"
    by (cases r2) auto
  moreover from this obtain a4 r4 where "r3 = a4 # r4"
    by (cases r3) auto
  ultimately show ?thesis using that by blast
qed

subsection \<open>What the decoder reads\<close>

lemma decode1:
  assumes "\<not> bit b0 7"
  shows "pbl_VarBufToLong (b0 # r) = Some (ucast b0, 1)"
  using assms by (simp add: pbl_VarBufToLong_bits load_def)

lemma decode2:
  assumes "bit b0 7" "\<not> bit b0 6"
  shows "pbl_VarBufToLong (b0 # b1 # r) = Some (push_bit 8 (ucast (take_bit 6 b0)) OR ucast b1, 2)"
  using assms by (simp add: pbl_VarBufToLong_bits load_def)

lemma decode3:
  assumes "bit b0 7" "bit b0 6" "\<not> bit b0 5"
  shows "pbl_VarBufToLong (b0 # b1 # b2 # r)
    = Some (push_bit 16 (ucast (take_bit 5 b0)) OR push_bit 8 (ucast b1) OR ucast b2, 3)"
  using assms by (simp add: pbl_VarBufToLong_bits load_def)

lemma decode4:
  assumes "bit b0 7" "bit b0 6" "bit b0 5" "\<not> bit b0 4"
  shows "pbl_VarBufToLong (b0 # b1 # b2 # b3 # r)
    = Some (push_bit 24 (ucast (take_bit 4 b0)) OR push_bit 16 (ucast b1)
        OR push_bit 8 (ucast b2) OR ucast b3, 4)"
  using assms by (simp add: pbl_VarBufToLong_bits load_def)

lemma decode5:
  assumes "bit b0 7" "bit b0 6" "bit b0 5" "bit b0 4"
  shows "pbl_VarBufToLong (b0 # b1 # b2 # b3 # b4 # r)
    = Some (((push_bit 24 (ucast b1) OR push_bit 16 (ucast b2)) OR push_bit 8 (ucast b3))
        OR ucast b4, 5)"
  using assms by (simp add: pbl_VarBufToLong_bits pbl_BufToLong_def load_def)

subsection \<open>The bits of an encoded value\<close>

lemma bits1:
  fixes v :: ulong assumes "v \<le> 0x7f"
  shows "\<not> bit (ucast v :: uchar) 7" "ucast (ucast v :: uchar) = v"
proof -
  obtain w where v: "v = take_bit 7 w" using ulong_small(1)[OF assms] ..
  show "\<not> bit (ucast v :: uchar) 7" unfolding v by (simp add: wbits)
  show "ucast (ucast v :: uchar) = v" unfolding v by (rule bit_word_eqI) (auto simp add: wbits)
qed

lemma bits2:
  fixes v :: ulong assumes "v \<le> 0x3fff"
  defines "b0 \<equiv> ucast (drop_bit 8 v OR 0x80) :: uchar"
  shows "bit b0 7" "\<not> bit b0 6"
    "push_bit 8 (ucast (take_bit 6 b0)) OR ucast (ucast v :: uchar) = v"
proof -
  obtain w where v: "v = take_bit 14 w" using ulong_small(2)[OF assms(1)] ..
  show "bit b0 7" unfolding b0_def by (simp add: wbits)
  show "\<not> bit b0 6" unfolding b0_def v by (simp add: wbits)
  show "push_bit 8 (ucast (take_bit 6 b0)) OR ucast (ucast v :: uchar) = v"
    unfolding b0_def v
    apply (rule bit_word_eqI)
    subgoal for n
      by (cases n rule: byte_cases) (auto simp add: wbits bit_consts)
    done
qed

lemma bits3:
  fixes v :: ulong assumes "v \<le> 0x1fffff"
  defines "b0 \<equiv> ucast ((drop_bit 16 v OR 0x80) OR 0x40) :: uchar"
  shows "bit b0 7" "bit b0 6" "\<not> bit b0 5"
    "push_bit 16 (ucast (take_bit 5 b0)) OR push_bit 8 (ucast (ucast (drop_bit 8 v) :: uchar))
      OR ucast (ucast v :: uchar) = v"
proof -
  obtain w where v: "v = take_bit 21 w" using ulong_small(3)[OF assms(1)] ..
  show "bit b0 7" "bit b0 6" unfolding b0_def by (simp_all add: wbits)
  show "\<not> bit b0 5" unfolding b0_def v by (simp add: wbits)
  show "push_bit 16 (ucast (take_bit 5 b0)) OR push_bit 8 (ucast (ucast (drop_bit 8 v) :: uchar))
      OR ucast (ucast v :: uchar) = v"
    unfolding b0_def v
    apply (rule bit_word_eqI)
    subgoal for n
      by (cases n rule: byte_cases) (auto simp add: wbits bit_consts)
    done
qed

lemma bits4:
  fixes v :: ulong assumes "v \<le> 0x0fffffff"
  defines "b0 \<equiv> ucast (((drop_bit 24 v OR 0x80) OR 0x40) OR 0x20) :: uchar"
  shows "bit b0 7" "bit b0 6" "bit b0 5" "\<not> bit b0 4"
    "push_bit 24 (ucast (take_bit 4 b0)) OR push_bit 16 (ucast (ucast (drop_bit 16 v) :: uchar))
      OR push_bit 8 (ucast (ucast (drop_bit 8 v) :: uchar))
      OR ucast (ucast v :: uchar) = v"
proof -
  obtain w where v: "v = take_bit 28 w" using ulong_small(4)[OF assms(1)] ..
  show "bit b0 7" "bit b0 6" "bit b0 5" unfolding b0_def by (simp_all add: wbits)
  show "\<not> bit b0 4" unfolding b0_def v by (simp add: wbits)
  show "push_bit 24 (ucast (take_bit 4 b0)) OR push_bit 16 (ucast (ucast (drop_bit 16 v) :: uchar))
      OR push_bit 8 (ucast (ucast (drop_bit 8 v) :: uchar))
      OR ucast (ucast v :: uchar) = v"
    unfolding b0_def v
    apply (rule bit_word_eqI)
    subgoal for n
      by (cases n rule: byte_cases) (auto simp add: wbits bit_consts)
    done
qed

lemma bits5:
  fixes v :: ulong assumes "v \<le> 0xffffffff"
  shows "((push_bit 24 (ucast (ucast (drop_bit 24 v) :: uchar))
      OR push_bit 16 (ucast (ucast (drop_bit 16 v) :: uchar)))
      OR push_bit 8 (ucast (ucast (drop_bit 8 v) :: uchar)))
      OR ucast (ucast v :: uchar) = v"
proof -
  obtain w where v: "v = take_bit 32 w" using ulong_small(5)[OF assms(1)] ..
  show ?thesis
    unfolding v
    apply (rule bit_word_eqI)
    subgoal for n
      by (cases n rule: byte_cases) (auto simp add: wbits)
    done
qed

lemma tag5: "bit (0xf0 :: uchar) 7" "bit (0xf0 :: uchar) 6" "bit (0xf0 :: uchar) 5"
  "bit (0xf0 :: uchar) 4"
  by simp_all

subsection \<open>Buffers that are long enough\<close>

lemma one_byte:
  assumes "1 \<le> length (buffer :: uchar list)"
  obtains a0 r where "buffer = a0 # r"
  using assms by (cases buffer) auto

lemma two_bytes:
  assumes "2 \<le> length (buffer :: uchar list)"
  obtains a0 a1 r where "buffer = a0 # a1 # r"
proof -
  from assms obtain a0 r0 where "buffer = a0 # r0" "1 \<le> length r0"
    by (cases buffer) auto
  moreover from this obtain a1 r1 where "r0 = a1 # r1"
    by (cases r0) auto
  ultimately show ?thesis using that by blast
qed

lemma three_bytes:
  assumes "3 \<le> length (buffer :: uchar list)"
  obtains a0 a1 a2 r where "buffer = a0 # a1 # a2 # r"
proof -
  from assms obtain a0 r0 where "buffer = a0 # r0" "2 \<le> length r0"
    by (cases buffer) auto
  moreover from this obtain a1 a2 r where "r0 = a1 # a2 # r"
    by (elim two_bytes)
  ultimately show ?thesis using that by blast
qed

lemma four_bytes:
  assumes "4 \<le> length (buffer :: uchar list)"
  obtains a0 a1 a2 a3 r where "buffer = a0 # a1 # a2 # a3 # r"
proof -
  from assms obtain a0 r0 where "buffer = a0 # r0" "3 \<le> length r0"
    by (cases buffer) auto
  moreover from this obtain a1 a2 a3 r where "r0 = a1 # a2 # a3 # r"
    by (elim three_bytes)
  ultimately show ?thesis using that by blast
qed

lemma pbl_LongToVarBuf_length:
  assumes "pbl_LongToVarBuf buffer v = Some (encoded, w)"
  shows "unat (pbl_LongSize v) \<le> length buffer"
  using assms
  by (auto simp add: pbl_LongToVarBuf_def pbl_LongSize_def store_def Suc_le_eq
      split: if_splits Option.bind_splits)

lemma pbl_VarBufSize_first: "pbl_VarBufSize (b0 # r) = pbl_VarBufSize [b0]"
  by (simp add: pbl_VarBufSize_def load_def)

lemma pbl_VarBufSize_agrees:
  assumes "pbl_VarBufToLong buffer = Some (x, w)"
  shows "pbl_VarBufSize buffer = Some w"
  using assms unfolding pbl_VarBufToLong_def pbl_VarBufSize_def Let_def
  by (auto split: if_splits Option.bind_splits)

subsection \<open>The width classes\<close>

lemma ulong_not_le:
  fixes v :: ulong
  shows "\<not> v \<le> 0x7f \<longleftrightarrow> 0x80 \<le> v" "\<not> v \<le> 0x3fff \<longleftrightarrow> 0x4000 \<le> v"
    "\<not> v \<le> 0x1fffff \<longleftrightarrow> 0x200000 \<le> v" "\<not> v \<le> 0x0fffffff \<longleftrightarrow> 0x10000000 \<le> v"
  by (simp_all add: word_le_nat_alt) arith+

lemma pbl_LongSize_values:
  "pbl_LongSize v = 1 \<longleftrightarrow> v \<le> 0x7f"
  "pbl_LongSize v = 2 \<longleftrightarrow> \<not> v \<le> 0x7f \<and> v \<le> 0x3fff"
  "pbl_LongSize v = 3 \<longleftrightarrow> \<not> v \<le> 0x3fff \<and> v \<le> 0x1fffff"
  "pbl_LongSize v = 4 \<longleftrightarrow> \<not> v \<le> 0x1fffff \<and> v \<le> 0x0fffffff"
  "pbl_LongSize v = 5 \<longleftrightarrow> \<not> v \<le> 0x0fffffff"
  using breakpoints[of v] by (auto simp add: pbl_LongSize_def)

lemma pbl_LongSize_sint:
  "sint (pbl_LongSize v) =
    (if v \<le> 0x7f then 1 else if v \<le> 0x3fff then 2 else if v \<le> 0x1fffff then 3
     else if v \<le> 0x0fffffff then 4 else 5)"
  by (simp add: pbl_LongSize_def)

subsection \<open>The results of the encoder\<close>

lemma pbl_LongToVarBuf_cases:
  assumes "pbl_LongToVarBuf buffer v = Some (encoded, w)"
  obtains
    (one) r where "v \<le> 0x7f" "encoded = ucast v # r" "w = 1"
  | (two) r where "\<not> v \<le> 0x7f" "v \<le> 0x3fff"
      "encoded = ucast (drop_bit 8 v OR 0x80) # ucast v # r" "w = 2"
  | (three) r where "\<not> v \<le> 0x3fff" "v \<le> 0x1fffff"
      "encoded = ucast ((drop_bit 16 v OR 0x80) OR 0x40) # ucast (drop_bit 8 v) # ucast v # r"
      "w = 3"
  | (four) r where "\<not> v \<le> 0x1fffff" "v \<le> 0x0fffffff"
      "encoded = ucast (((drop_bit 24 v OR 0x80) OR 0x40) OR 0x20) # ucast (drop_bit 16 v)
        # ucast (drop_bit 8 v) # ucast v # r"
      "w = 4"
  | (five) r where "\<not> v \<le> 0x0fffffff"
      "encoded = 0xf0 # ucast (drop_bit 24 v) # ucast (drop_bit 16 v) # ucast (drop_bit 8 v)
        # ucast v # r"
      "w = 5"
proof -
  note len = pbl_LongToVarBuf_length[OF assms]
  consider (c1) "v \<le> 0x7f"
    | (c2) "\<not> v \<le> 0x7f" "v \<le> 0x3fff"
    | (c3) "\<not> v \<le> 0x3fff" "v \<le> 0x1fffff"
    | (c4) "\<not> v \<le> 0x1fffff" "v \<le> 0x0fffffff"
    | (c5) "\<not> v \<le> 0x0fffffff"
    by blast
  then show ?thesis
  proof cases
    case c1
    then have "1 \<le> length buffer"
      using len by (simp add: pbl_LongSize_values(1)[THEN iffD2])
    then obtain a0 r where "buffer = a0 # r" by (rule one_byte)
    then have "encoded = ucast v # r" "w = 1"
      using assms encoded1[OF c1, of a0 r] by simp_all
    with c1 show ?thesis by (rule one)
  next
    case c2
    then have "2 \<le> length buffer"
      using len by (simp add: pbl_LongSize_values(2)[THEN iffD2])
    then obtain a0 a1 r where "buffer = a0 # a1 # r" by (rule two_bytes)
    then have "encoded = ucast (drop_bit 8 v OR 0x80) # ucast v # r" "w = 2"
      using assms encoded2[OF c2, of a0 a1 r] by simp_all
    with c2 show ?thesis by (rule two)
  next
    case c3
    then have "3 \<le> length buffer"
      using len by (simp add: pbl_LongSize_values(3)[THEN iffD2])
    then obtain a0 a1 a2 r where "buffer = a0 # a1 # a2 # r" by (rule three_bytes)
    then have "encoded = ucast ((drop_bit 16 v OR 0x80) OR 0x40) # ucast (drop_bit 8 v)
        # ucast v # r" "w = 3"
      using assms encoded3[OF c3, of a0 a1 a2 r] by simp_all
    with c3 show ?thesis by (rule three)
  next
    case c4
    then have "4 \<le> length buffer"
      using len by (simp add: pbl_LongSize_values(4)[THEN iffD2])
    then obtain a0 a1 a2 a3 r where "buffer = a0 # a1 # a2 # a3 # r" by (rule four_bytes)
    then have "encoded = ucast (((drop_bit 24 v OR 0x80) OR 0x40) OR 0x20)
        # ucast (drop_bit 16 v) # ucast (drop_bit 8 v) # ucast v # r" "w = 4"
      using assms encoded4[OF c4, of a0 a1 a2 a3 r] by simp_all
    with c4 show ?thesis by (rule four)
  next
    case c5
    then have "5 \<le> length buffer"
      using len by (simp add: pbl_LongSize_values(5)[THEN iffD2])
    then obtain a0 a1 a2 a3 a4 r where "buffer = a0 # a1 # a2 # a3 # a4 # r" by (rule five_bytes)
    then have "encoded = 0xf0 # ucast (drop_bit 24 v) # ucast (drop_bit 16 v)
        # ucast (drop_bit 8 v) # ucast v # r" "w = 5"
      using assms encoded5[OF c5, of a0 a1 a2 a3 a4 r] by simp_all
    with c5 show ?thesis by (rule five)
  qed
qed

lemma pbl_LongToVarBuf_returns:
  assumes "5 \<le> length buffer"
  shows "\<exists>encoded. pbl_LongToVarBuf buffer v = Some (encoded, pbl_LongSize v)"
proof -
  obtain a0 a1 a2 a3 a4 r where buffer: "buffer = a0 # a1 # a2 # a3 # a4 # r"
    using assms by (rule five_bytes)
  consider (c1) "v \<le> 0x7f"
    | (c2) "\<not> v \<le> 0x7f" "v \<le> 0x3fff"
    | (c3) "\<not> v \<le> 0x3fff" "v \<le> 0x1fffff"
    | (c4) "\<not> v \<le> 0x1fffff" "v \<le> 0x0fffffff"
    | (c5) "\<not> v \<le> 0x0fffffff"
    by blast
  then show ?thesis
  proof cases
    case c1
    show ?thesis
      unfolding buffer encoded1[OF c1] pbl_LongSize_values(1)[THEN iffD2, OF c1] by simp
  next
    case c2
    show ?thesis
      unfolding buffer encoded2[OF c2] using c2 by (simp add: pbl_LongSize_values(2)[THEN iffD2])
  next
    case c3
    show ?thesis
      unfolding buffer encoded3[OF c3] using c3 by (simp add: pbl_LongSize_values(3)[THEN iffD2])
  next
    case c4
    show ?thesis
      unfolding buffer encoded4[OF c4] using c4 by (simp add: pbl_LongSize_values(4)[THEN iffD2])
  next
    case c5
    show ?thesis
      unfolding buffer encoded5[OF c5] using c5 by (simp add: pbl_LongSize_values(5)[THEN iffD2])
  qed
qed

section \<open>Facts about the buffer ordering\<close>

subsection \<open>Conversions to \<^verbatim>\<open>int\<close>\<close>

lemma sint_of_nat_small:
  assumes "n < 2 ^ 31"
  shows "sint (of_nat n :: cint) = int n"
proof -
  have "sint (of_nat n :: cint) = signed_take_bit 31 (int n)"
    by (simp add: signed_of_nat)
  also have "\<dots> = int n"
    using assms by (simp add: signed_take_bit_int_eq_self)
  finally show ?thesis .
qed

lemma sint_diff_small:
  assumes "m < 2 ^ 31" "n < 2 ^ 31"
  shows "sint (of_nat m - of_nat n :: cint) = int m - int n"
proof -
  have "sint (of_nat m - of_nat n :: cint)
      = signed_take_bit 31 (sint (of_nat m :: cint) - sint (of_nat n :: cint))"
    by (simp add: sint_word_ariths)
  also have "\<dots> = signed_take_bit 31 (int m - int n)"
    using assms by (simp add: sint_of_nat_small)
  also have "\<dots> = int m - int n"
    using assms by (intro signed_take_bit_int_eq_self) simp_all
  finally show ?thesis .
qed

lemma ucast_size_t_of_nat:
  fixes a :: size_t
  shows "(ucast a :: cint) = of_nat (unat a)"
  by simp

lemma ucast_uchar_of_nat:
  fixes x :: uchar
  shows "(ucast x :: cint) = of_nat (unat x)"
  by simp

lemma unat_uchar_bound:
  fixes x :: uchar
  shows "unat x < 2 ^ 31"
proof -
  have "unat x < 2 ^ 8" using unsigned_less[of x, where ?'a = nat] by simp
  then show ?thesis by simp
qed

lemma sint_byte_diff:
  fixes x y :: uchar
  shows "sint (ucast x - ucast y :: cint) = int (unat x) - int (unat y)"
  unfolding ucast_uchar_of_nat by (rule sint_diff_small) (rule unat_uchar_bound)+

lemma sint_length_diff:
  fixes a b :: size_t
  assumes "unat a < 2 ^ 31" "unat b < 2 ^ 31"
  shows "sint ((ucast a :: cint) - ucast b) = int (unat a) - int (unat b)"
  unfolding ucast_size_t_of_nat using assms by (rule sint_diff_small)

subsection \<open>\<^verbatim>\<open>memcmp\<close> and \<^verbatim>\<open>pbl_memcmp\<close>\<close>

lemma memcmp_bytes_same: "memcmp_bytes xs xs = 0"
  by (induction xs) simp_all

lemma memcmp_bytes_swap: "sint (memcmp_bytes ys xs) = - sint (memcmp_bytes xs ys)"
proof (induction xs ys rule: memcmp_bytes.induct)
  case (1 x xs y ys)
  then show ?case by (simp add: sint_byte_diff)
qed simp_all

lemma sint_eq_0: "sint (w :: cint) = 0 \<longleftrightarrow> w = 0"
  by (rule signed_eq_0_iff)

lemma memcmp_bytes_swap_0: "memcmp_bytes ys xs = 0 \<longleftrightarrow> memcmp_bytes xs ys = 0"
  using memcmp_bytes_swap[of ys xs] by (simp flip: sint_eq_0)

text \<open>While both lengths are below \<open>2 ^ 31\<close>, two buffers with the same bytes up to
  the shorter length are ordered by their lengths.\<close>

lemma pbl_memcmp_prefix_small:
  assumes "llen \<noteq> 0" "rlen \<noteq> 0"
    and "unat llen \<le> length left" "unat rlen \<le> length right"
    and "take (min (unat llen) (unat rlen)) left = take (min (unat llen) (unat rlen)) right"
    and "unat llen < 2 ^ 31" "unat rlen < 2 ^ 31"
  shows "\<exists>rc. pbl_memcmp left llen right rlen = Some rc
    \<and> sint rc = int (unat llen) - int (unat rlen)"
proof -
  define len where "len = (if llen \<le> rlen then llen else rlen)"
  have len: "unat len = min (unat llen) (unat rlen)"
    by (auto simp add: len_def word_le_nat_alt)
  have "min (unat llen) (unat rlen) \<le> length left" "min (unat llen) (unat rlen) \<le> length right"
    using assms(3,4) by simp_all
  then have "memcmp left right len = Some 0"
    using assms(5) by (simp add: memcmp_def len memcmp_bytes_same)
  then have "pbl_memcmp left llen right rlen = Some ((ucast llen :: cint) - ucast rlen)"
    using assms(1,2) by (simp add: pbl_memcmp_def len_def)
  then show ?thesis
    using sint_length_diff[OF assms(6,7)] by simp
qed

lemma pbl_memcmp_refl:
  assumes "unat alen \<le> length a"
  shows "pbl_memcmp a alen a alen = Some 0"
  using assms by (simp add: pbl_memcmp_def memcmp_def memcmp_bytes_same)

text \<open>While both lengths are below \<open>2 ^ 31\<close>, swapping the arguments negates the
  result.\<close>

lemma pbl_memcmp_swap_small:
  assumes "unat alen \<le> length a" "unat blen \<le> length b"
    and "unat alen < 2 ^ 31" "unat blen < 2 ^ 31"
  shows "\<exists>x y. pbl_memcmp a alen b blen = Some x \<and> pbl_memcmp b blen a alen = Some y
    \<and> sint y = - sint x"
proof -
  consider (zero) "alen = 0 \<or> blen = 0" | (full) "alen \<noteq> 0" "blen \<noteq> 0"
    by blast
  then show ?thesis
  proof cases
    case zero
    then show ?thesis by (auto simp add: pbl_memcmp_def)
  next
    case full
    define n where "n = min (unat alen) (unat blen)"
    have n1: "unat (if alen \<le> blen then alen else blen) = n"
      by (auto simp add: n_def word_le_nat_alt)
    have n2: "unat (if blen \<le> alen then blen else alen) = n"
      by (auto simp add: n_def word_le_nat_alt)
    have le: "n \<le> length a" "n \<le> length b"
      using assms(1,2) by (simp_all add: n_def)
    have ab: "pbl_memcmp a alen b blen
      = Some (if memcmp_bytes (take n a) (take n b) \<noteq> 0 then memcmp_bytes (take n a) (take n b)
          else ucast alen - ucast blen)"
      using full le by (simp add: pbl_memcmp_def memcmp_def n1 Let_def)
    have ba: "pbl_memcmp b blen a alen
      = Some (if memcmp_bytes (take n b) (take n a) \<noteq> 0 then memcmp_bytes (take n b) (take n a)
          else ucast blen - ucast alen)"
      using full le by (simp add: pbl_memcmp_def memcmp_def n2 Let_def)
    show ?thesis
      unfolding ab ba
      using memcmp_bytes_swap[of "take n b" "take n a"] memcmp_bytes_swap_0[of "take n b" "take n a"]
        sint_length_diff[OF assms(3,4)] sint_length_diff[OF assms(4,3)]
      by auto
  qed
qed

subsection \<open>The loop of \<^verbatim>\<open>pbl_memcmplen\<close>\<close>

lemma unat_uint_bound:
  fixes i :: uint
  shows "unat i < 2 ^ 32"
  using unsigned_less[of i, where ?'a = nat] by simp

lemma uint_below_size_t:
  fixes i :: uint and llen :: size_t
  shows "(ucast i :: size_t) < llen \<longleftrightarrow> unat i < unat llen"
proof -
  have "unat (ucast i :: size_t) = unat i"
    using unat_uint_bound[of i] by (simp add: unsigned_ucast_eq take_bit_nat_eq_self)
  then show ?thesis by (simp add: word_less_nat_alt)
qed

lemma memcmplen_loop_overrun:
  assumes "2 ^ 32 \<le> unat llen"
  shows "memcmplen_loop (replicate n x) (replicate n x) llen i = None"
proof (induction n arbitrary: i)
  case 0
  have "unat i < unat llen"
    using assms unat_uint_bound[of i] by simp
  then show ?case by (subst memcmplen_loop.simps) (simp add: uint_below_size_t)
next
  case (Suc n)
  have "unat i < unat llen"
    using assms unat_uint_bound[of i] by simp
  then show ?case
    using Suc.IH[of "i + 1"] by (subst memcmplen_loop.simps) (simp add: uint_below_size_t)
qed

lemma memcmplen_loop_counts:
  assumes "unat llen < 2 ^ 32" "unat i \<le> unat llen"
    and "unat llen - unat i \<le> length l" "unat llen - unat i \<le> length r"
  shows "memcmplen_loop l r llen i
    = Some (i + of_nat (common_prefix_length (take (unat llen - unat i) l)
        (take (unat llen - unat i) r)))"
  using assms
proof (induction l r llen i rule: memcmplen_loop.induct)
  case (1 l r llen i)
  show ?case
  proof (cases "unat i < unat llen")
    case False
    then have "unat llen - unat i = 0" by simp
    then show ?thesis
      using False by (subst memcmplen_loop.simps) (simp add: uint_below_size_t)
  next
    case True
    then obtain a l' where l: "l = a # l'"
      using "1.prems"(3) by (cases l) auto
    from True obtain b r' where r: "r = b # r'"
      using "1.prems"(4) by (cases r) auto
    have i1: "unat (i + 1) = Suc (unat i)"
      using True "1.prems"(1) by (simp add: unat_word_ariths)
    have d: "unat llen - unat i = Suc (unat llen - unat (i + 1))"
      using True i1 by simp
    show ?thesis
    proof (cases "a = b")
      case False
      then show ?thesis
        using True by (subst memcmplen_loop.simps) (simp add: uint_below_size_t l r d)
    next
      case eq: True
      have "memcmplen_loop l' r' llen (i + 1)
        = Some (i + 1 + of_nat (common_prefix_length (take (unat llen - unat (i + 1)) l')
            (take (unat llen - unat (i + 1)) r')))"
      proof (rule "1.IH")
        show "ucast i < llen" using True by (simp add: uint_below_size_t)
        show "l = a # l'" by (rule l)
        show "r = b # r'" by (rule r)
        show "\<not> a \<noteq> b" using eq by simp
        show "unat llen < 2 ^ 32" by (rule "1.prems"(1))
        show "unat (i + 1) \<le> unat llen" using True i1 by simp
        show "unat llen - unat (i + 1) \<le> length l'" using "1.prems"(3) l d by simp
        show "unat llen - unat (i + 1) \<le> length r'" using "1.prems"(4) r d by simp
      qed
      then show ?thesis
        using True eq by (subst memcmplen_loop.simps) (simp add: uint_below_size_t l r d)
    qed
  qed
qed

lemma common_prefix_length_replicate:
  "common_prefix_length (replicate n x) (replicate n x) = n"
  by (induction n) simp_all

lemma common_prefix_length_le:
  "common_prefix_length xs ys \<le> min (length xs) (length ys)"
  by (induction xs ys rule: common_prefix_length.induct) simp_all

lemma common_prefix_length_take:
  "common_prefix_length (take a xs) (take b ys) = min (min a b) (common_prefix_length xs ys)"
proof (induction xs ys arbitrary: a b rule: common_prefix_length.induct)
  case (1 x xs y ys)
  show ?case
  proof (cases a)
    case 0
    then show ?thesis by simp
  next
    case a: (Suc a')
    show ?thesis
    proof (cases b)
      case 0
      then show ?thesis by simp
    next
      case b: (Suc b')
      show ?thesis using "1.IH"[of a' b'] by (simp add: a b)
    qed
  qed
qed simp_all

lemma pbl_memcmplen_counts:
  assumes "unat llen \<le> length left" "unat rlen \<le> length right"
    and "min (unat llen) (unat rlen) < 2 ^ 32"
  shows "pbl_memcmplen left llen right rlen
    = Some (of_nat (common_prefix_length (take (unat llen) left) (take (unat rlen) right)))"
proof -
  define m where "m = (if llen > rlen then rlen else llen)"
  have m: "unat m = min (unat llen) (unat rlen)"
    by (auto simp add: m_def word_less_nat_alt)
  have "memcmplen_loop left right m 0
    = Some (0 + of_nat (common_prefix_length (take (unat m - unat (0 :: uint)) left)
        (take (unat m - unat (0 :: uint)) right)))"
    by (rule memcmplen_loop_counts) (use assms m in auto)
  moreover have "common_prefix_length (take (unat m) left) (take (unat m) right)
    = common_prefix_length (take (unat llen) left) (take (unat rlen) right)"
    unfolding common_prefix_length_take m by simp
  ultimately show ?thesis
    by (simp add: pbl_memcmplen_def m_def)
qed

text \<open>When both buffers hold the same byte everywhere and the length to compare is
  \<open>2 ^ 32\<close> or more, the counter never reaches the length and the loop reads beyond
  the end of the buffers.\<close>

lemma pbl_memcmplen_overrun:
  assumes "2 ^ 32 \<le> unat llen"
  shows "pbl_memcmplen (replicate n x) llen (replicate n x) llen = None"
  using memcmplen_loop_overrun[OF assms] by (simp add: pbl_memcmplen_def)

text \<open>While the shorter length is below \<open>2 ^ 31\<close>, the result is the number of leading
  bytes at which the two buffers agree.\<close>

lemma pbl_memcmplen_small:
  assumes "unat llen \<le> length left" "unat rlen \<le> length right"
    and "min (unat llen) (unat rlen) < 2 ^ 31"
  shows "\<exists>rc. pbl_memcmplen left llen right rlen = Some rc
    \<and> sint rc = int (common_prefix_length (take (unat llen) left) (take (unat rlen) right))
    \<and> sint rc \<le> int (min (unat llen) (unat rlen))
    \<and> (llen = 0 \<or> rlen = 0 \<longrightarrow> rc = 0)"
proof -
  let ?n = "common_prefix_length (take (unat llen) left) (take (unat rlen) right)"
  have le: "?n \<le> min (unat llen) (unat rlen)"
    using common_prefix_length_le[of "take (unat llen) left" "take (unat rlen) right"] assms(1,2)
    by simp
  have "pbl_memcmplen left llen right rlen = Some (of_nat ?n)"
    using assms by (intro pbl_memcmplen_counts) simp_all
  moreover have "sint (of_nat ?n :: cint) = int ?n"
    using le assms(3) by (intro sint_of_nat_small) (rule le_less_trans)
  moreover have "?n = 0" if "llen = 0 \<or> rlen = 0"
    using that le by auto
  ultimately show ?thesis using le by auto
qed

subsection \<open>The examples of the specification\<close>

lemma pbl_memcmp_examples:
  "map_option sint (pbl_memcmp [1, 2] 2 [1, 2, 3] 3) = Some (- 1)"
  "map_option sint (pbl_memcmp [] 0 [1, 2] 2) = Some (- 1)"
  "map_option sint (pbl_memcmp [] 0 [] 0) = Some 0"
  "map_option sint (pbl_memcmp [1, 2, 200] 3 [1, 2, 3] 3) = Some 197"
  by (simp_all add: pbl_memcmp_def memcmp_def)

lemma pbl_memcmplen_examples:
  "pbl_memcmplen [1, 2, 3] 3 [1, 2, 9] 3 = Some 2"
  "pbl_memcmplen [] 0 [1] 1 = Some 0"
  "pbl_memcmplen [1, 2, 3] 3 [1, 2, 3, 4] 4 = Some 3"
  by (simp_all add: pbl_memcmplen_def memcmplen_loop.simps)

lemma pbl_LongSize_examples:
  "pbl_LongSize 0x7f = 1" "pbl_LongSize 0x80 = 2" "pbl_LongSize 0x3fff = 2"
  "pbl_LongSize 0x4000 = 3"
  by (simp_all add: pbl_LongSize_def)

section \<open>Claims\<close>

text \<open>
  C1. For every value \<open>v\<close> in \<open>[0, 2^32 - 1]\<close>: \<^const>\<open>pbl_LongToVarBuf\<close> returns on
  every output buffer of at least five bytes, and whenever it returns \<open>w\<close>, on a buffer
  of any length, \<^const>\<open>pbl_VarBufToLong\<close> on the buffer it has written returns \<open>w\<close> and
  stores \<open>v\<close>, and \<open>w\<close> is \<^const>\<open>pbl_LongSize\<close> of \<open>v\<close>.
\<close>

theorem pbl_varbuf_roundtrip:
  assumes "v \<le> 0xffffffff"
  shows "(5 \<le> length buffer \<longrightarrow> (\<exists>encoded w. pbl_LongToVarBuf buffer v = Some (encoded, w)))
    \<and> (\<forall>encoded w. pbl_LongToVarBuf buffer v = Some (encoded, w)
          \<longrightarrow> pbl_VarBufToLong encoded = Some (v, w) \<and> w = pbl_LongSize v)"
proof -
  have "pbl_VarBufToLong encoded = Some (v, w) \<and> w = pbl_LongSize v"
    if enc: "pbl_LongToVarBuf buffer v = Some (encoded, w)" for encoded w
    using enc
  proof (cases rule: pbl_LongToVarBuf_cases)
    case (one r)
    have "pbl_VarBufToLong (ucast v # r) = Some (v, 1)"
      using decode1[OF bits1(1)[OF one(1)]] bits1(2)[OF one(1)] by simp
    then show ?thesis
      using one by (simp add: pbl_LongSize_values(1)[THEN iffD2])
  next
    case (two r)
    have "pbl_VarBufToLong (ucast (drop_bit 8 v OR 0x80) # ucast v # r) = Some (v, 2)"
      using decode2[OF bits2(1,2)[OF two(2)]] bits2(3)[OF two(2)] by simp
    then show ?thesis
      using two by (simp add: pbl_LongSize_values(2)[THEN iffD2])
  next
    case (three r)
    have "pbl_VarBufToLong (ucast ((drop_bit 16 v OR 0x80) OR 0x40) # ucast (drop_bit 8 v)
        # ucast v # r) = Some (v, 3)"
      using decode3[OF bits3(1,2,3)[OF three(2)]] bits3(4)[OF three(2)] by simp
    then show ?thesis
      using three by (simp add: pbl_LongSize_values(3)[THEN iffD2])
  next
    case (four r)
    have "pbl_VarBufToLong (ucast (((drop_bit 24 v OR 0x80) OR 0x40) OR 0x20)
        # ucast (drop_bit 16 v) # ucast (drop_bit 8 v) # ucast v # r) = Some (v, 4)"
      using decode4[OF bits4(1,2,3,4)[OF four(2)]] bits4(5)[OF four(2)] by simp
    then show ?thesis
      using four by (simp add: pbl_LongSize_values(4)[THEN iffD2])
  next
    case (five r)
    have "pbl_VarBufToLong (0xf0 # ucast (drop_bit 24 v) # ucast (drop_bit 16 v)
        # ucast (drop_bit 8 v) # ucast v # r) = Some (v, 5)"
      using decode5[OF tag5] bits5[OF assms] by simp
    then show ?thesis
      using five by (simp add: pbl_LongSize_values(5)[THEN iffD2])
  qed
  moreover have "\<exists>encoded w. pbl_LongToVarBuf buffer v = Some (encoded, w)"
    if "5 \<le> length buffer"
    using pbl_LongToVarBuf_returns[OF that] by blast
  ultimately show ?thesis by blast
qed

theorem pbl_varbuf_roundtrip_witness:
  "(0x10000000 :: ulong) \<le> 0xffffffff \<and> 5 \<le> length [0, 0, 0, 0, 0 :: uchar]
    \<and> pbl_LongToVarBuf [0, 0, 0, 0, 0] 0x10000000 = Some ([0xf0, 0x10, 0, 0, 0], 5)
    \<and> pbl_VarBufToLong [0xf0, 0x10, 0, 0, 0] = Some (0x10000000, 5)
    \<and> (5 :: cint) = pbl_LongSize 0x10000000"
proof -
  have v: "(0x10000000 :: ulong) \<le> 0xffffffff" by simp
  have enc: "pbl_LongToVarBuf [0, 0, 0, 0, 0] 0x10000000 = Some ([0xf0, 0x10, 0, 0, 0], 5)"
    by (simp add: pbl_LongToVarBuf_def store_def)
  show ?thesis
    using v enc pbl_varbuf_roundtrip[OF v, of "[0, 0, 0, 0, 0]"] by simp
qed

text \<open>
  C2. Encoding 300 (0x12C) writes the two bytes 0x81, 0x2C, which are
  \<open>0x80 | (300 >> 8)\<close> and the low byte of 300, leaves the rest of the buffer as it was
  and returns 2; decoding the two byte buffer 0x81, 0x2C stores 300 and returns 2.
\<close>

theorem pbl_varbuf_300:
  "ucast (drop_bit 8 (300 :: ulong) OR 0x80) = (0x81 :: uchar)
   \<and> ucast (300 :: ulong) = (0x2c :: uchar)
   \<and> pbl_LongToVarBuf (a0 # a1 # r) 300 = Some (0x81 # 0x2c # r, 2)
   \<and> pbl_VarBufToLong [0x81, 0x2c] = Some (300, 2)"
  by (simp add: pbl_LongToVarBuf_def store_def pbl_VarBufToLong_def load_def)

text \<open>
  C3. On every buffer that \<^const>\<open>pbl_LongToVarBuf\<close> has written, for any value,
  \<^const>\<open>pbl_VarBufToLong\<close> returns, \<^const>\<open>pbl_VarBufSize\<close> returns the same number of bytes,
  and \<^const>\<open>pbl_VarBufSize\<close> gives that number on every buffer with the same first byte,
  whatever follows it: it looks at the first byte only.
\<close>

theorem pbl_VarBufSize_agrees_with_decode:
  assumes "pbl_LongToVarBuf buffer v = Some (encoded, w)"
  shows "(\<exists>x. pbl_VarBufToLong encoded = Some (x, w))
    \<and> pbl_VarBufSize encoded = Some w
    \<and> (\<forall>rest. pbl_VarBufSize (take 1 encoded @ rest) = Some w)"
proof -
  have "\<exists>x b0 r. pbl_VarBufToLong encoded = Some (x, w) \<and> encoded = b0 # r"
    using assms
  proof (cases rule: pbl_LongToVarBuf_cases)
    case (one r)
    then show ?thesis using decode1[OF bits1(1)[OF one(1)]] by simp
  next
    case (two r)
    then show ?thesis using decode2[OF bits2(1,2)[OF two(2)]] by simp
  next
    case (three r)
    then show ?thesis using decode3[OF bits3(1,2,3)[OF three(2)]] by simp
  next
    case (four r)
    then show ?thesis using decode4[OF bits4(1,2,3,4)[OF four(2)]] by simp
  next
    case (five r)
    then show ?thesis using decode5[OF tag5] by simp
  qed
  then obtain x b0 r where dec: "pbl_VarBufToLong encoded = Some (x, w)" and e: "encoded = b0 # r"
    by blast
  have size: "pbl_VarBufSize encoded = Some w"
    using dec by (rule pbl_VarBufSize_agrees)
  have "pbl_VarBufSize (take 1 encoded @ rest) = Some w" for rest
    using size unfolding e by (simp add: pbl_VarBufSize_first[of b0 r] pbl_VarBufSize_first[of b0 rest])
  then show ?thesis using dec size by blast
qed

theorem pbl_VarBufSize_agrees_with_decode_witness:
  "pbl_LongToVarBuf [0, 0, 0, 0, 0] 0x4000 = Some ([0xc0, 0x40, 0x00, 0, 0], 3)
    \<and> (\<exists>x. pbl_VarBufToLong [0xc0, 0x40, 0x00, 0, 0] = Some (x, 3))
    \<and> pbl_VarBufSize [0xc0, 0x40, 0x00, 0, 0] = Some 3
    \<and> (\<forall>rest. pbl_VarBufSize (take 1 [0xc0, 0x40, 0x00, 0, 0] @ rest) = Some 3)"
proof -
  have enc: "pbl_LongToVarBuf [0, 0, 0, 0, 0] 0x4000 = Some ([0xc0, 0x40, 0x00, 0, 0], 3)"
    by (simp add: pbl_LongToVarBuf_def store_def)
  show ?thesis
    using enc pbl_VarBufSize_agrees_with_decode[OF enc] by simp
qed

text \<open>
  C4. \<^const>\<open>pbl_memcmp\<close> converts both lengths to \<^verbatim>\<open>int\<close> before it subtracts them. A
  buffer of one byte is shorter than a buffer of \<open>2 ^ 32 + 1\<close> bytes that starts with the
  same byte, and the two agree on the first byte, yet the result is 0; against a buffer
  of \<open>2 ^ 32 - 1\<close> such bytes the result is 2, a positive value, for the shorter buffer on
  the left.
\<close>

theorem pbl_memcmp_truncates_lengths:
  "(1 :: size_t) < 4294967297
   \<and> take (unat (1 :: size_t)) [7 :: uchar] = take (unat (1 :: size_t)) (replicate 4294967297 7)
   \<and> pbl_memcmp [7] 1 (replicate 4294967297 7) 4294967297 = Some 0
   \<and> (1 :: size_t) < 4294967295
   \<and> take (unat (1 :: size_t)) [7 :: uchar] = take (unat (1 :: size_t)) (replicate 4294967295 7)
   \<and> pbl_memcmp [7] 1 (replicate 4294967295 7) 4294967295 = Some 2
   \<and> sint (2 :: cint) = 2"
  by (simp add: pbl_memcmp_def memcmp_def word_less_nat_alt)

text \<open>
  C5. Whatever the two pointers point to, \<^const>\<open>pbl_memcmp\<close> returns a negative value
  when the left length is 0 and the right length is not, a positive value when the right
  length is 0 and the left length is not, and 0 when both lengths are 0.
\<close>

theorem pbl_memcmp_empty:
  "(rlen \<noteq> 0 \<longrightarrow> (\<exists>rc. pbl_memcmp left 0 right rlen = Some rc \<and> sint rc < 0))
   \<and> (llen \<noteq> 0 \<longrightarrow> (\<exists>rc. pbl_memcmp left llen right 0 = Some rc \<and> 0 < sint rc))
   \<and> pbl_memcmp left 0 right 0 = Some 0"
  by (simp add: pbl_memcmp_def)

theorem pbl_memcmp_empty_witness:
  "(2 :: size_t) \<noteq> 0 \<and> (\<exists>rc. pbl_memcmp [] 0 [1, 2] 2 = Some rc \<and> sint rc < 0)
   \<and> (\<exists>rc. pbl_memcmp [1, 2] 2 [] 0 = Some rc \<and> 0 < sint rc)
   \<and> pbl_memcmp [] 0 [1, 2] 0 = Some 0"
  using pbl_memcmp_empty[of 2 "[]" "[1, 2]" 2] pbl_memcmp_empty[of 2 "[1, 2]" "[]" 2]
    pbl_memcmp_empty[of 0 "[]" "[1, 2]" 0]
  by simp

text \<open>
  C6. For a buffer of one byte and a buffer of \<open>2 ^ 31 + 1\<close> bytes that starts with the
  same byte, \<^const>\<open>pbl_memcmp\<close> returns \<open>- 2 ^ 31\<close> in both orders of the arguments:
  the difference of the lengths, taken in \<^verbatim>\<open>int\<close>, wraps around in one of the two orders,
  and the two results have the same sign.
\<close>

theorem pbl_memcmp_same_sign:
  "pbl_memcmp [7] 1 (replicate 2147483649 7) 2147483649 = Some 0x80000000
   \<and> pbl_memcmp (replicate 2147483649 7) 2147483649 [7] 1 = Some 0x80000000
   \<and> sint (0x80000000 :: cint) = - 2147483648"
  by (simp add: pbl_memcmp_def memcmp_def word_le_nat_alt)

text \<open>
  C7. For two buffers of \<open>2 ^ 31\<close> bytes that agree everywhere, \<^const>\<open>pbl_memcmplen\<close>
  returns \<open>- 2 ^ 31\<close>, a negative value, while the number of leading bytes at which the
  buffers agree is \<open>2 ^ 31\<close>: the counter is an \<^verbatim>\<open>unsigned int\<close> returned as \<^verbatim>\<open>int\<close>.
\<close>

theorem pbl_memcmplen_negative_count:
  "pbl_memcmplen (replicate 2147483648 0) 2147483648 (replicate 2147483648 0) 2147483648
     = Some 0x80000000
   \<and> sint (0x80000000 :: cint) = - 2147483648
   \<and> common_prefix_length (replicate 2147483648 0) (replicate 2147483648 0) = 2147483648"
proof -
  have "pbl_memcmplen (replicate 2147483648 0) 2147483648 (replicate 2147483648 0) 2147483648
    = Some (of_nat (common_prefix_length
        (take (unat (2147483648 :: size_t)) (replicate 2147483648 0))
        (take (unat (2147483648 :: size_t)) (replicate 2147483648 0))))"
    by (rule pbl_memcmplen_counts) simp_all
  then show ?thesis
    by (simp add: common_prefix_length_replicate)
qed

text \<open>
  C8. \<^const>\<open>pbl_LongSize\<close> is 1 exactly on \<open>[0, 0x7F]\<close>, 2 exactly on \<open>[0x80, 0x3FFF]\<close>,
  3 exactly on \<open>[0x4000, 0x1FFFFF]\<close>, 4 exactly on \<open>[0x200000, 0x0FFFFFFF]\<close> and 5 exactly
  from \<open>0x10000000\<close> on, and it is non-decreasing: \<open>v \<le> w\<close> implies that the size of
  \<open>v\<close> is at most the size of \<open>w\<close>.
\<close>

theorem pbl_LongSize_steps:
  "(pbl_LongSize v = 1 \<longleftrightarrow> v \<le> 0x7f)
   \<and> (pbl_LongSize v = 2 \<longleftrightarrow> 0x80 \<le> v \<and> v \<le> 0x3fff)
   \<and> (pbl_LongSize v = 3 \<longleftrightarrow> 0x4000 \<le> v \<and> v \<le> 0x1fffff)
   \<and> (pbl_LongSize v = 4 \<longleftrightarrow> 0x200000 \<le> v \<and> v \<le> 0x0fffffff)
   \<and> (pbl_LongSize v = 5 \<longleftrightarrow> 0x10000000 \<le> v)
   \<and> (v \<le> w \<longrightarrow> sint (pbl_LongSize v) \<le> sint (pbl_LongSize w))"
proof -
  have mono: "sint (pbl_LongSize v) \<le> sint (pbl_LongSize w)" if "v \<le> w"
  proof -
    have "w \<le> k \<Longrightarrow> v \<le> k" for k using that by (rule order_trans)
    then show ?thesis unfolding pbl_LongSize_sint by auto
  qed
  show ?thesis
    using mono by (simp add: pbl_LongSize_values ulong_not_le)
qed

theorem pbl_LongSize_steps_witness:
  "(pbl_LongSize 0x7f = 1 \<longleftrightarrow> (0x7f :: ulong) \<le> 0x7f)
   \<and> (pbl_LongSize 0x7f = 2 \<longleftrightarrow> (0x80 :: ulong) \<le> 0x7f \<and> (0x7f :: ulong) \<le> 0x3fff)
   \<and> (pbl_LongSize 0x7f = 3 \<longleftrightarrow> (0x4000 :: ulong) \<le> 0x7f \<and> (0x7f :: ulong) \<le> 0x1fffff)
   \<and> (pbl_LongSize 0x7f = 4 \<longleftrightarrow> (0x200000 :: ulong) \<le> 0x7f \<and> (0x7f :: ulong) \<le> 0x0fffffff)
   \<and> (pbl_LongSize 0x7f = 5 \<longleftrightarrow> (0x10000000 :: ulong) \<le> 0x7f)
   \<and> (0x7f :: ulong) \<le> 0x80 \<and> sint (pbl_LongSize 0x7f) \<le> sint (pbl_LongSize 0x80)"
  using pbl_LongSize_steps[of "0x7f" "0x80"] by (simp add: pbl_LongSize_def)

text \<open>
  C9. The decoder accepts an encoding that the encoder never writes: the buffer
  0x80, 0x05 decodes to 5 with two bytes consumed, while the encoder writes the single
  byte 0x05 for 5, which decodes to 5 as well. Encoding 5 over the buffer 0x80, 0x05
  does not give that buffer back.
\<close>

theorem pbl_varbuf_overlong:
  "pbl_VarBufToLong [0x80, 0x05] = Some (5, 2)
   \<and> pbl_LongToVarBuf (a0 # r) 5 = Some (0x05 # r, 1)
   \<and> pbl_VarBufToLong [0x05] = Some (5, 1)
   \<and> pbl_LongToVarBuf [0x80, 0x05] 5 = Some ([0x05, 0x05], 1)
   \<and> [0x05, 0x05] \<noteq> [0x80, 0x05 :: uchar]"
  by (simp add: pbl_LongToVarBuf_def store_def pbl_VarBufToLong_def load_def)

text \<open>
  C10. On a buffer of at least five bytes \<^const>\<open>pbl_LongToVarBuf\<close> returns a number
  \<open>w\<close> between 1 and 5 for every value, the buffer keeps its length, and every byte at
  an index from \<open>w\<close> on is the byte that was there before the call.
\<close>

theorem pbl_LongToVarBuf_frame:
  assumes "5 \<le> length buffer"
  shows "\<exists>encoded w. pbl_LongToVarBuf buffer v = Some (encoded, w)
    \<and> 1 \<le> sint w \<and> sint w \<le> 5 \<and> length encoded = length buffer
    \<and> (\<forall>i. nat (sint w) \<le> i \<and> i < length buffer \<longrightarrow> encoded ! i = buffer ! i)"
proof -
  obtain a0 a1 a2 a3 a4 r where buffer: "buffer = a0 # a1 # a2 # a3 # a4 # r"
    using assms by (rule five_bytes)
  consider (one) "v \<le> 0x7f"
    | (two) "\<not> v \<le> 0x7f" "v \<le> 0x3fff"
    | (three) "\<not> v \<le> 0x3fff" "v \<le> 0x1fffff"
    | (four) "\<not> v \<le> 0x1fffff" "v \<le> 0x0fffffff"
    | (five) "\<not> v \<le> 0x0fffffff"
    by blast
  then show ?thesis
  proof cases
    case one
    show ?thesis
      unfolding buffer encoded1[OF one] by (simp add: nth_Cons')
  next
    case two
    show ?thesis
      unfolding buffer encoded2[OF two] by (simp add: nth_Cons')
  next
    case three
    show ?thesis
      unfolding buffer encoded3[OF three] by (simp add: nth_Cons')
  next
    case four
    show ?thesis
      unfolding buffer encoded4[OF four] by (simp add: nth_Cons')
  next
    case five
    show ?thesis
      unfolding buffer encoded5[OF five] by (simp add: nth_Cons')
  qed
qed

theorem pbl_LongToVarBuf_frame_witness:
  "5 \<le> length [1, 2, 3, 4, 5 :: uchar]
   \<and> (\<exists>encoded w. pbl_LongToVarBuf [1, 2, 3, 4, 5] 300 = Some (encoded, w)
    \<and> 1 \<le> sint w \<and> sint w \<le> 5 \<and> length encoded = length [1, 2, 3, 4, 5 :: uchar]
    \<and> (\<forall>i. nat (sint w) \<le> i \<and> i < length [1, 2, 3, 4, 5 :: uchar]
        \<longrightarrow> encoded ! i = [1, 2, 3, 4, 5 :: uchar] ! i))"
  using pbl_LongToVarBuf_frame[of "[1, 2, 3, 4, 5]" 300] by simp

end
